theory Spec2Isabelle
  imports Main "HOL-Library.Word" "HOL-Library.Sublist"
begin

section \<open>JavaScript values and the heap\<close>

text \<open>
  The store of \<^verbatim>\<open>bonsai-react\<close> is a JavaScript class. Its properties speak of object
  identity (a snapshot is replaced, never mutated), of \<^verbatim>\<open>Object.is\<close> and of the
  identity of listener functions, so the model has an explicit heap of objects and
  explicit function references.

  A JavaScript number is an IEEE 754 double, kept here as its 64 bits: two doubles that
  are not NaN are the same value exactly when their bits are equal (\<open>+0\<close> and \<open>-0\<close>
  differ in the sign bit), and every NaN is the same value.
\<close>

type_synonym addr = nat

datatype jsvalue =
    Undefined
  | Null
  | Bool bool
  | Num "64 word"
  | Str string
  | Ref addr

text \<open>An object is its own enumerable properties; the heap is indexed by address, and a
  new object gets the next address. A reference of the program always names an object;
  \<open>obj_at\<close> gives an address that names none no properties.\<close>

type_synonym obj = "string \<rightharpoonup> jsvalue"

type_synonym heap = "obj list"

definition obj_at :: "heap \<Rightarrow> addr \<Rightarrow> obj" where
  "obj_at h a = (if a < length h then h ! a else Map.empty)"

definition alloc :: "heap \<Rightarrow> obj \<Rightarrow> heap \<times> addr" where
  "alloc h ob = (h @ [ob], length h)"


text \<open>Reading a property: \<^verbatim>\<open>undefined\<close> when the object has none of that name.\<close>

definition get_field :: "obj \<Rightarrow> string \<Rightarrow> jsvalue" where
  "get_field ob k = (case ob k of None \<Rightarrow> Undefined | Some v \<Rightarrow> v)"

subsection \<open>\<^verbatim>\<open>Object.is\<close>\<close>

definition is_nan :: "64 word \<Rightarrow> bool" where
  "is_nan w = (take_bit 11 (drop_bit 52 w) = 2047 \<and> take_bit 52 w \<noteq> 0)"

fun object_is :: "jsvalue \<Rightarrow> jsvalue \<Rightarrow> bool" where
  "object_is (Num x) (Num y) = (is_nan x \<and> is_nan y \<or> x = y)"
| "object_is x y = (x = y)"

text \<open>For contrast, \<^verbatim>\<open>===\<close>: NaN is not equal to itself, and the two zeros are equal.\<close>

definition is_zero :: "64 word \<Rightarrow> bool" where
  "is_zero w = (take_bit 63 w = 0)"

fun strict_equals :: "jsvalue \<Rightarrow> jsvalue \<Rightarrow> bool" where
  "strict_equals (Num x) (Num y) =
     (\<not> is_nan x \<and> \<not> is_nan y \<and> (x = y \<or> is_zero x \<and> is_zero y))"
| "strict_equals x y = (x = y)"

section \<open>The store\<close>

text \<open>
  \<^verbatim>\<open>type Listener = () => void\<close>. A listener in the set is either a function of the
  caller's (\<open>User f\<close>, the function reference \<open>f\<close>) or a \<^verbatim>\<open>checkForChange\<close> closure
  that \<^verbatim>\<open>subscribeWithSelector\<close> created (\<open>CheckForChange n\<close>, the \<open>n\<close>-th closure).
\<close>

type_synonym fid = nat

datatype listener = User fid | CheckForChange nat

text \<open>The function \<^verbatim>\<open>() => this.#listeners.delete(listener)\<close> that \<^verbatim>\<open>subscribe\<close>
  returns; it closes over \<^verbatim>\<open>listener\<close>.\<close>

datatype unsubscribe = Unsubscribe listener

text \<open>
  What a function of the caller's does when it is called, one action after the other: it
  may throw, and it may call unsubscribe functions it holds. Calls of \<^verbatim>\<open>update\<close> and
  \<^verbatim>\<open>subscribe\<close> from inside a listener are not modelled (the design leaves re-entrant
  updates unspecified), so every property below is about listeners that do not make
  them.
\<close>

datatype action = Raise jsvalue | Call unsubscribe

datatype 'a outcome = Returned 'a | Thrown jsvalue

text \<open>A selector is a pure function of the snapshot (it reads the heap, and it may throw);
  a setter makes a patch, the properties of the object it returns.\<close>

type_synonym selector = "heap \<Rightarrow> addr \<Rightarrow> jsvalue outcome"

type_synonym patch = "string \<rightharpoonup> jsvalue"


text \<open>The variables a \<^verbatim>\<open>checkForChange\<close> closure captures: \<^verbatim>\<open>selector\<close>,
  \<^verbatim>\<open>previousValue\<close> (assigned by the closure) and \<^verbatim>\<open>listener\<close>, here \<open>consumer\<close>,
  a function of the caller's.\<close>

record closure =
  selector :: selector
  previousValue :: jsvalue
  consumer :: fid

text \<open>
  The trace is what an observer records of the notification passes; the program never
  reads it. \<open>Notified l\<close>: \<^verbatim>\<open>emitChange\<close> calls the listener \<open>l\<close> of the set.
  \<open>Fired n f\<close>: the \<open>n\<close>-th \<^verbatim>\<open>checkForChange\<close> calls its listener \<open>f\<close>.
  \<open>Unsubscribed l\<close>: a function of the caller's, while it runs, calls the unsubscribe
  function of \<open>l\<close>.
\<close>

datatype event = Notified listener | Fired nat fid | Unsubscribed listener

text \<open>
  \<^verbatim>\<open>#data\<close> is the address of the snapshot; \<^verbatim>\<open>#listeners\<close> is a JavaScript
  \<^verbatim>\<open>Set\<close>, kept as ECMAScript specifies it: the list of its entries in insertion
  order, where a deleted entry leaves an empty slot (\<open>None\<close>).
\<close>

record store =
  heap :: heap
  data :: addr
  listeners :: "listener option list"
  closures :: "closure list"
  body :: "fid \<Rightarrow> action list"
  trace :: "event list"

subsection \<open>\<^verbatim>\<open>Set.prototype.add\<close>, \<^verbatim>\<open>delete\<close> and \<^verbatim>\<open>forEach\<close>\<close>

definition set_add :: "'a option list \<Rightarrow> 'a \<Rightarrow> 'a option list" where
  "set_add es x = (if Some x \<in> set es then es else es @ [Some x])"

fun set_delete :: "'a option list \<Rightarrow> 'a \<Rightarrow> 'a option list" where
  "set_delete [] x = []"
| "set_delete (e # es) x = (if e = Some x then None # es else e # set_delete es x)"

subsection \<open>Calling a listener\<close>

definition call_unsubscribe :: "store \<Rightarrow> unsubscribe \<Rightarrow> store" where
  "call_unsubscribe st u =
     (case u of Unsubscribe l \<Rightarrow> st\<lparr>listeners := set_delete (listeners st) l\<rparr>)"

fun run_actions :: "store \<Rightarrow> action list \<Rightarrow> unit outcome \<times> store" where
  "run_actions st [] = (Returned (), st)"
| "run_actions st (Raise e # acts) = (Thrown e, st)"
| "run_actions st (Call (Unsubscribe l) # acts) =
     run_actions
       (call_unsubscribe (st\<lparr>trace := trace st @ [Unsubscribed l]\<rparr>) (Unsubscribe l)) acts"

definition call_user :: "store \<Rightarrow> fid \<Rightarrow> unit outcome \<times> store" where
  "call_user st f = run_actions st (body st f)"

text \<open>
  \<^verbatim>\<open>
  const checkForChange = (): void => {
    const currentValue = selector(this.#data);
    if (!Object.is(previousValue, currentValue)) {
      previousValue = currentValue;
      listener();
    }
  };\<close>
  The closure \<open>n\<close> exists when it is called, since \<^verbatim>\<open>subscribeWithSelector\<close> makes it
  before it registers it; for an index that names no closure the model does nothing.
\<close>

definition checkForChange :: "store \<Rightarrow> nat \<Rightarrow> unit outcome \<times> store" where
  "checkForChange st n =
     (if n < length (closures st) then
        (let c = closures st ! n in
         case selector c (heap st) (data st) of
           Thrown e \<Rightarrow> (Thrown e, st)
         | Returned currentValue \<Rightarrow>
             if \<not> object_is (previousValue c) currentValue then
               call_user
                 (st\<lparr>closures := (closures st)[n := c\<lparr>previousValue := currentValue\<rparr>],
                     trace := trace st @ [Fired n (consumer c)]\<rparr>)
                 (consumer c)
             else (Returned (), st))
      else (Returned (), st))"

fun call_listener :: "store \<Rightarrow> listener \<Rightarrow> unit outcome \<times> store" where
  "call_listener st (User f) = call_user st f"
| "call_listener st (CheckForChange n) = checkForChange st n"

subsection \<open>Every call keeps the number of slots\<close>

lemma length_set_delete: "length (set_delete es x) = length es"
  by (induction es) auto

lemma run_actions_length_listeners:
  "run_actions st acts = (r, st') \<Longrightarrow> length (listeners st') = length (listeners st)"
proof (induction st acts rule: run_actions.induct)
  case (3 st l acts)
  then show ?case
    by (simp add: call_unsubscribe_def length_set_delete)
qed auto

lemma call_listener_length_listeners:
  "call_listener st l = (r, st') \<Longrightarrow> length (listeners st') = length (listeners st)"
proof (cases l)
  case (User f)
  assume "call_listener st l = (r, st')"
  with User show ?thesis
    by (auto simp: call_user_def dest: run_actions_length_listeners)
next
  case (CheckForChange n)
  assume "call_listener st l = (r, st')"
  with CheckForChange show ?thesis
    by (auto simp: checkForChange_def call_user_def Let_def
        split: if_splits outcome.splits dest: run_actions_length_listeners)
qed

subsection \<open>The methods of \<^verbatim>\<open>Store\<close>\<close>

text \<open>
  \<^verbatim>\<open>this.#listeners.forEach((listener) => { listener(); })\<close>, from entry \<open>i\<close> on, as
  \<^verbatim>\<open>Set.prototype.forEach\<close> runs: the entries are read one index after the other from
  the live list, an empty slot is skipped, and an exception of the callback ends the loop
  and is thrown to the caller.
\<close>

function forEach :: "store \<Rightarrow> nat \<Rightarrow> unit outcome \<times> store" where
  "forEach st i =
     (if i < length (listeners st) then
        (case listeners st ! i of
           None \<Rightarrow> forEach st (Suc i)
         | Some l \<Rightarrow>
             (case call_listener (st\<lparr>trace := trace st @ [Notified l]\<rparr>) l of
                (Thrown e, st') \<Rightarrow> (Thrown e, st')
              | (Returned u, st') \<Rightarrow> forEach st' (Suc i)))
      else (Returned (), st))"
  by pat_completeness auto
termination
proof (relation "measure (\<lambda>(st, i). length (listeners st) - i)")
  show "wf (measure (\<lambda>(st, i). length (listeners st) - i))"
    by simp
next
  fix st :: store and i
  assume "i < length (listeners st)"
  then show "((st, Suc i), (st, i)) \<in> measure (\<lambda>(st, i). length (listeners st) - i)"
    by simp
next
  fix st :: store and i l x u st'
  assume lt: "i < length (listeners st)"
    and call: "(x, st') = call_listener (st\<lparr>trace := trace st @ [Notified l]\<rparr>) l"
  from call have "length (listeners st') = length (listeners st)"
    using call_listener_length_listeners [of "st\<lparr>trace := trace st @ [Notified l]\<rparr>" l x st']
    by simp
  with lt show "((st', Suc i), (st, i)) \<in> measure (\<lambda>(st, i). length (listeners st) - i)"
    by simp
qed

text \<open>\<^verbatim>\<open>constructor(initialData: T) { this.#data = { ...initialData }; }\<close>, in a heap \<open>h\<close>
  and with the functions \<open>b\<close> of the caller.\<close>

definition new_Store :: "heap \<Rightarrow> (fid \<Rightarrow> action list) \<Rightarrow> addr \<Rightarrow> store" where
  "new_Store h b initialData =
     (let (h', a) = alloc h (obj_at h initialData)
      in \<lparr>heap = h', data = a, listeners = [], closures = [], body = b, trace = []\<rparr>)"

text \<open>\<^verbatim>\<open>subscribe(listener) { this.#listeners.add(listener);
  return () => this.#listeners.delete(listener); }\<close>\<close>

definition subscribe :: "store \<Rightarrow> listener \<Rightarrow> unsubscribe \<times> store" where
  "subscribe st l = (Unsubscribe l, st\<lparr>listeners := set_add (listeners st) l\<rparr>)"

text \<open>\<^verbatim>\<open>getSnapshot(): T { return this.#data; }\<close>\<close>

definition getSnapshot :: "store \<Rightarrow> addr" where
  "getSnapshot st = data st"

text \<open>
  \<^verbatim>\<open>
  subscribeWithSelector(selector, listener) {
    let previousValue = selector(this.#data);
    const checkForChange = ...;
    return this.subscribe(checkForChange);
  }\<close>
\<close>

definition subscribeWithSelector ::
  "store \<Rightarrow> selector \<Rightarrow> fid \<Rightarrow> unsubscribe outcome \<times> store" where
  "subscribeWithSelector st sel f =
     (case sel (heap st) (data st) of
        Thrown e \<Rightarrow> (Thrown e, st)
      | Returned v \<Rightarrow>
          (let n = length (closures st);
               st1 = st\<lparr>closures := closures st @
                        [\<lparr>selector = sel, previousValue = v, consumer = f\<rparr>]\<rparr>;
               (u, st2) = subscribe st1 (CheckForChange n)
           in (Returned u, st2)))"

text \<open>\<^verbatim>\<open>private emitChange = (): void => { this.#listeners.forEach(...) }\<close>\<close>

definition emitChange :: "store \<Rightarrow> unit outcome \<times> store" where
  "emitChange st = forEach st 0"

text \<open>
  \<^verbatim>\<open>update(updates: Partial<T>) { this.#data = { ...this.#data, ...updates };
  this.emitChange(); }\<close>. The patch is given by the properties of \<^verbatim>\<open>updates\<close>;
  \<open>merge_data\<close> is the assignment to \<^verbatim>\<open>#data\<close>, the first statement.
\<close>

definition merge_data :: "store \<Rightarrow> patch \<Rightarrow> store" where
  "merge_data st updates =
     (let (h', a) = alloc (heap st) (obj_at (heap st) (data st) ++ updates)
      in st\<lparr>heap := h', data := a\<rparr>)"

definition update :: "store \<Rightarrow> patch \<Rightarrow> unit outcome \<times> store" where
  "update st updates = emitChange (merge_data st updates)"

section \<open>The hook factories\<close>

text \<open>
  \<^verbatim>\<open>createSelectorHook\<close> and \<^verbatim>\<open>createHook\<close> hand React's
  \<^verbatim>\<open>useSyncExternalStore\<close> three functions, and \<^verbatim>\<open>createHook\<close> adds
  \<^verbatim>\<open>setValue\<close>. React itself is outside the model: a hook is the functions it is made of.
\<close>

record selector_hook =
  hook_subscribe :: "store \<Rightarrow> fid \<Rightarrow> unsubscribe outcome \<times> store"
  hook_getSnapshot :: "store \<Rightarrow> jsvalue outcome"
  hook_getServerSnapshot :: "store \<Rightarrow> jsvalue outcome"


definition createSelectorHook :: "selector \<Rightarrow> selector_hook" where
  "createSelectorHook sel =
     \<lparr>hook_subscribe = (\<lambda>st f. subscribeWithSelector st sel f),
      hook_getSnapshot = (\<lambda>st. sel (heap st) (getSnapshot st)),
      hook_getServerSnapshot = (\<lambda>st. sel (heap st) (getSnapshot st))\<rparr>"


text \<open>The selector \<^verbatim>\<open>s => s.k\<close>, the identity selector \<^verbatim>\<open>state => state\<close> and the
  setter \<^verbatim>\<open>(v, _s) => ({k: v})\<close>.\<close>

definition select_field :: "string \<Rightarrow> selector" where
  "select_field k = (\<lambda>h a. Returned (get_field (obj_at h a) k))"



section \<open>Observations\<close>

text \<open>The own properties of the current snapshot.\<close>

definition snapshot :: "store \<Rightarrow> obj" where
  "snapshot st = obj_at (heap st) (getSnapshot st)"

text \<open>The members of a set, in insertion order.\<close>

fun live :: "'a option list \<Rightarrow> 'a list" where
  "live [] = []"
| "live (None # es) = live es"
| "live (Some x # es) = x # live es"

text \<open>The events between a state and a later one.\<close>

definition new_events :: "store \<Rightarrow> store \<Rightarrow> event list" where
  "new_events st st' = drop (length (trace st)) (trace st')"

text \<open>The listeners that \<^verbatim>\<open>emitChange\<close> called, in the order of the calls, and how often
  the \<open>n\<close>-th \<^verbatim>\<open>checkForChange\<close> called its listener.\<close>

fun notified :: "event list \<Rightarrow> listener list" where
  "notified [] = []"
| "notified (Notified l # evs) = l # notified evs"
| "notified (ev # evs) = notified evs"

fun fired :: "nat \<Rightarrow> event list \<Rightarrow> nat" where
  "fired n [] = 0"
| "fired n (Fired m f # evs) = (if m = n then Suc (fired n evs) else fired n evs)"
| "fired n (ev # evs) = fired n evs"

text \<open>Several calls of \<^verbatim>\<open>update\<close>, one after the other; the caller goes on after a call
  that threw.\<close>

fun updates :: "store \<Rightarrow> patch list \<Rightarrow> store" where
  "updates st [] = st"
| "updates st (p # ps) = updates (snd (update st p)) ps"

text \<open>No listener is notified after a function of the caller's has called its unsubscribe
  function.\<close>

fun quiet_after_unsubscribe :: "event list \<Rightarrow> bool" where
  "quiet_after_unsubscribe [] = True"
| "quiet_after_unsubscribe (Unsubscribed l # evs) =
     (l \<notin> set (notified evs) \<and> quiet_after_unsubscribe evs)"
| "quiet_after_unsubscribe (ev # evs) = quiet_after_unsubscribe evs"

text \<open>Where an exception \<open>e\<close> of a listener can come from: a \<^verbatim>\<open>throw\<close> in the function,
  the selector of a \<^verbatim>\<open>checkForChange\<close> on the current snapshot, or a \<^verbatim>\<open>throw\<close> in the
  listener that \<^verbatim>\<open>checkForChange\<close> calls.\<close>

fun raises :: "store \<Rightarrow> listener \<Rightarrow> jsvalue \<Rightarrow> bool" where
  "raises st (User f) e = (Raise e \<in> set (body st f))"
| "raises st (CheckForChange n) e =
     (n < length (closures st) \<and>
      (selector (closures st ! n) (heap st) (data st) = Thrown e \<or>
       Raise e \<in> set (body st (consumer (closures st ! n)))))"

subsection \<open>Relations between a state and a later one\<close>

text \<open>Entries of a set are deleted, none is added.\<close>

definition shrinks :: "'a option list \<Rightarrow> 'a option list \<Rightarrow> bool" where
  "shrinks es es' = list_all2 (\<lambda>e e'. e' = e \<or> e' = None) es es'"

text \<open>The trace is extended.\<close>

definition grows :: "store \<Rightarrow> store \<Rightarrow> bool" where
  "grows st st' = (trace st' = trace st @ new_events st st')"

text \<open>What a notification pass leaves as it is: the heap, \<^verbatim>\<open>#data\<close>, the functions, and
  the selector and the listener of every closure.\<close>

definition frame :: "store \<Rightarrow> store \<Rightarrow> bool" where
  "frame st st' =
     (heap st' = heap st \<and> data st' = data st \<and> body st' = body st \<and>
      length (closures st') = length (closures st) \<and>
      (\<forall>n<length (closures st).
         selector (closures st' ! n) = selector (closures st ! n) \<and>
         consumer (closures st' ! n) = consumer (closures st ! n)) \<and>
      shrinks (listeners st) (listeners st') \<and> grows st st')"


section \<open>Example stores\<close>

text \<open>\<^verbatim>\<open>const counterStore = new Store<CounterState>({ count: 0, step: 1 })\<close>, with
  functions of the caller's that do nothing. The numbers are the doubles \<open>0\<close> and \<open>1\<close>.\<close>

definition counterStore :: store where
  "counterStore =
     new_Store [[''count'' \<mapsto> Num 0, ''step'' \<mapsto> Num 0x3FF0000000000000]] (\<lambda>f. []) 0"

text \<open>A counter store with two listeners, \<open>User 0\<close> registered before \<open>User 1\<close>, and
  the functions \<open>b\<close> of the caller's.\<close>

definition two_listeners :: "(fid \<Rightarrow> action list) \<Rightarrow> store" where
  "two_listeners b =
     snd (subscribe (snd (subscribe
       (new_Store [[''count'' \<mapsto> Num 0, ''step'' \<mapsto> Num 0x3FF0000000000000]] b 0)
       (User 0))) (User 1))"

text \<open>The first listener calls the unsubscribe function of the second; the first listener
  throws; both only observe.\<close>

definition removing_store :: store where
  "removing_store = two_listeners (\<lambda>f. if f = 0 then [Call (Unsubscribe (User 1))] else [])"









section \<open>The adapter as the specification words it\<close>

text \<open>
  Section 4.2 of the specification, for the comparison with the code. Same-value
  equality: identity for objects, arrays and functions, value equality for primitives,
  where NaN equals NaN and \<open>+0\<close> and \<open>-0\<close> are distinct.
\<close>

fun spec_same_value :: "jsvalue \<Rightarrow> jsvalue \<Rightarrow> bool" where
  "spec_same_value (Ref a) (Ref b) = (a = b)"
| "spec_same_value (Num x) (Num y) =
     (if is_nan x \<and> is_nan y then True
      else if is_zero x \<and> is_zero y then x = y
      else strict_equals (Num x) (Num y))"
| "spec_same_value v w = (v = w)"

text \<open>On every raw broadcast: compute the current projection, compare it with the
  previous one; if unequal, set the previous one and call the listener; if equal, do
  nothing.\<close>

definition spec_on_broadcast :: "store \<Rightarrow> nat \<Rightarrow> unit outcome \<times> store" where
  "spec_on_broadcast st n =
     (if n < length (closures st) then
        (case selector (closures st ! n) (heap st) (data st) of
           Thrown e \<Rightarrow> (Thrown e, st)
         | Returned current \<Rightarrow>
             if spec_same_value (previousValue (closures st ! n)) current
             then (Returned (), st)
             else call_user
                    (st\<lparr>closures := (closures st)[n := (closures st ! n)\<lparr>previousValue := current\<rparr>],
                        trace := trace st @ [Fired n (consumer (closures st ! n))]\<rparr>)
                    (consumer (closures st ! n)))
      else (Returned (), st))"

text \<open>On creation the previous projection is computed once, and the wrapper is
  registered through \<^verbatim>\<open>subscribe\<close>, whose unsubscribe function is returned.\<close>

definition spec_subscribeWithSelector ::
  "store \<Rightarrow> selector \<Rightarrow> fid \<Rightarrow> unsubscribe outcome \<times> store" where
  "spec_subscribeWithSelector st sel f =
     (case sel (heap st) (data st) of
        Thrown e \<Rightarrow> (Thrown e, st)
      | Returned previous \<Rightarrow>
          (case subscribe
                  (st\<lparr>closures := closures st @
                        [\<lparr>selector = sel, previousValue = previous, consumer = f\<rparr>]\<rparr>)
                  (CheckForChange (length (closures st))) of
             (unsub, st') \<Rightarrow> (Returned unsub, st')))"

declare forEach.simps [simp del]

section \<open>Lemmas\<close>

subsection \<open>The loop of \<^verbatim>\<open>forEach\<close>, case by case\<close>

lemma forEach_induct_rule [consumes 1, case_names finished skip throw step]:
  assumes run: "forEach st i = (r, st')"
    and finished: "\<And>st i. length (listeners st) \<le> i \<Longrightarrow> P st i (Returned ()) st"
    and skip: "\<And>st i r st'. i < length (listeners st) \<Longrightarrow> listeners st ! i = None \<Longrightarrow>
        forEach st (Suc i) = (r, st') \<Longrightarrow> P st (Suc i) r st' \<Longrightarrow> P st i r st'"
    and throw: "\<And>st i x e st'. i < length (listeners st) \<Longrightarrow> listeners st ! i = Some x \<Longrightarrow>
        call_listener (st\<lparr>trace := trace st @ [Notified x]\<rparr>) x = (Thrown e, st') \<Longrightarrow>
        P st i (Thrown e) st'"
    and step: "\<And>st i x st1 r st'. i < length (listeners st) \<Longrightarrow> listeners st ! i = Some x \<Longrightarrow>
        call_listener (st\<lparr>trace := trace st @ [Notified x]\<rparr>) x = (Returned (), st1) \<Longrightarrow>
        forEach st1 (Suc i) = (r, st') \<Longrightarrow> P st1 (Suc i) r st' \<Longrightarrow> P st i r st'"
  shows "P st i r st'"
  using run
proof (induction st i arbitrary: r st' rule: forEach.induct)
  case (1 st i)
  show ?case
  proof (cases "i < length (listeners st)")
    case False
    with "1.prems" have "r = Returned ()" "st' = st"
      by (simp_all add: forEach.simps [of st i])
    with False finished [of st i] show ?thesis by simp
  next
    case lt: True
    show ?thesis
    proof (cases "listeners st ! i")
      case None
      with lt "1.prems" have run': "forEach st (Suc i) = (r, st')"
        by (simp add: forEach.simps [of st i])
      from "1.IH"(1) [OF lt None run'] skip [OF lt None run'] show ?thesis by blast
    next
      case (Some x)
      obtain o1 st1 where call: "call_listener (st\<lparr>trace := trace st @ [Notified x]\<rparr>) x = (o1, st1)"
        by (cases "call_listener (st\<lparr>trace := trace st @ [Notified x]\<rparr>) x")
      show ?thesis
      proof (cases o1)
        case (Thrown e)
        with lt Some call "1.prems" have "r = Thrown e" "st' = st1"
          by (simp_all add: forEach.simps [of st i])
        with throw [OF lt Some] call Thrown show ?thesis by simp
      next
        case (Returned u)
        with lt Some call "1.prems" have run': "forEach st1 (Suc i) = (r, st')"
          by (simp add: forEach.simps [of st i])
        from call Returned have call': "call_listener (st\<lparr>trace := trace st @ [Notified x]\<rparr>) x = (Returned (), st1)"
          by simp
        have "P st1 (Suc i) r st'"
          using "1.IH"(2) [OF lt Some call [symmetric] _ run'] Returned by simp
        with step [OF lt Some call' run'] show ?thesis by blast
      qed
    qed
  qed
qed

lemma shrinks_refl: "shrinks es es"
  by (simp add: shrinks_def list_all2_refl)

lemma shrinks_trans: "shrinks es es' \<Longrightarrow> shrinks es' es'' \<Longrightarrow> shrinks es es''"
  unfolding shrinks_def
  by (rule list_all2_trans [where ?P1.0 = "\<lambda>e e'. e' = e \<or> e' = None" and ?P2.0 = "\<lambda>e e'. e' = e \<or> e' = None"]) auto




lemma shrinks_set_delete: "shrinks es (set_delete es x)"
  by (induction es) (auto simp: shrinks_def list_all2_refl)

lemma shrinks_subseq_live: "shrinks es es' \<Longrightarrow> subseq (live es') (live es)"
  unfolding shrinks_def
proof (induction es es' rule: list_all2_induct)
  case Nil
  then show ?case by simp
next
  case (Cons e es e' es')
  then show ?case
    by (cases e; cases e') auto
qed

lemma in_live_iff: "x \<in> set (live es) \<longleftrightarrow> Some x \<in> set es"
  by (induction es rule: live.induct) auto

lemma shrinks_member: "shrinks es es' \<Longrightarrow> Some x \<in> set es' \<Longrightarrow> Some x \<in> set es"
  using shrinks_subseq_live [of es es'] list_emb_set [where x = x and xs = "live es'" and P = "(=)" and ys = "live es"]
  by (auto simp: in_live_iff)

lemma shrinks_distinct: "shrinks es es' \<Longrightarrow> distinct (live es) \<Longrightarrow> distinct (live es')"
  using shrinks_subseq_live [of es es'] subseqs_distinctD [of "live es'" "live es"]
  by simp



lemma live_append: "live (es @ es') = live es @ live es'"
  by (induction es rule: live.induct) auto


lemma set_delete_absent: "distinct (live es) \<Longrightarrow> Some x \<notin> set (set_delete es x)"
proof (induction es rule: live.induct)
  case 1
  then show ?case by simp
next
  case (2 es)
  then show ?case by simp
next
  case (3 y es)
  then show ?case by (auto simp: in_live_iff)
qed

lemma set_delete_noop: "Some x \<notin> set es \<Longrightarrow> set_delete es x = es"
  by (induction es) auto

lemma notified_append: "notified (evs @ evs') = notified evs @ notified evs'"
  by (induction evs rule: notified.induct) auto

lemma fired_append: "fired n (evs @ evs') = fired n evs + fired n evs'"
  by (induction n evs rule: fired.induct) auto

lemma in_notified_iff: "l \<in> set (notified evs) \<longleftrightarrow> Notified l \<in> set evs"
  by (induction evs rule: notified.induct) auto


lemma growsI: "trace st' = trace st @ evs \<Longrightarrow> grows st st'"
  by (simp add: grows_def new_events_def)

lemma new_events_eq: "trace st' = trace st @ evs \<Longrightarrow> new_events st st' = evs"
  by (simp add: new_events_def)

lemma grows_refl: "grows st st"
  by (simp add: grows_def new_events_def)

lemma new_events_refl: "new_events st st = []"
  by (simp add: new_events_def)

lemma grows_trans: "grows st st1 \<Longrightarrow> grows st1 st2 \<Longrightarrow> grows st st2"
  unfolding grows_def new_events_def by (metis append.assoc append_eq_conv_conj)

lemma new_events_trans:
  "grows st st1 \<Longrightarrow> grows st1 st2 \<Longrightarrow> new_events st st2 = new_events st st1 @ new_events st1 st2"
  unfolding grows_def new_events_def by (metis append.assoc append_eq_conv_conj)

text \<open>What running the body of a function of the caller's can change.\<close>

lemma run_actions_frame:
  "run_actions st acts = (r, st') \<Longrightarrow>
     heap st' = heap st \<and> data st' = data st \<and> body st' = body st \<and> closures st' = closures st"
  by (induction st acts rule: run_actions.induct) (auto simp: call_unsubscribe_def)

lemma run_actions_shrinks:
  "run_actions st acts = (r, st') \<Longrightarrow> shrinks (listeners st) (listeners st')"
proof (induction st acts rule: run_actions.induct)
  case (3 st l acts)
  then show ?case
    using shrinks_trans [OF shrinks_set_delete [of "listeners st" l]]
    by (simp add: call_unsubscribe_def)
qed (auto simp: shrinks_refl)

lemma run_actions_grows: "run_actions st acts = (r, st') \<Longrightarrow> grows st st'"
proof (induction st acts rule: run_actions.induct)
  case (3 st l acts)
  let ?s = "call_unsubscribe (st\<lparr>trace := trace st @ [Unsubscribed l]\<rparr>) (Unsubscribe l)"
  from 3 have "grows ?s st'" by simp
  moreover have "grows st ?s"
    by (rule growsI [where evs = "[Unsubscribed l]"]) (simp add: call_unsubscribe_def)
  ultimately show ?case by (rule grows_trans [rotated])
qed (auto simp: grows_refl)

lemma run_actions_events:
  "run_actions st acts = (r, st') \<Longrightarrow>
     notified (new_events st st') = [] \<and> fired n (new_events st st') = 0"
proof (induction st acts rule: run_actions.induct)
  case (3 st l acts)
  let ?s = "call_unsubscribe (st\<lparr>trace := trace st @ [Unsubscribed l]\<rparr>) (Unsubscribe l)"
  from 3 have run: "run_actions ?s acts = (r, st')" by simp
  have g1: "grows st ?s"
    by (rule growsI [where evs = "[Unsubscribed l]"]) (simp add: call_unsubscribe_def)
  have e1: "new_events st ?s = [Unsubscribed l]"
    by (rule new_events_eq) (simp add: call_unsubscribe_def)
  from new_events_trans [OF g1 run_actions_grows [OF run]] e1 "3.IH" [OF run]
  show ?case by simp
qed (auto simp: new_events_refl)

lemma run_actions_unsubscribed:
  "run_actions st acts = (r, st') \<Longrightarrow> distinct (live (listeners st)) \<Longrightarrow>
     Unsubscribed l \<in> set (new_events st st') \<Longrightarrow> Some l \<notin> set (listeners st')"
proof (induction st acts rule: run_actions.induct)
  case (3 st l0 acts)
  let ?s = "call_unsubscribe (st\<lparr>trace := trace st @ [Unsubscribed l0]\<rparr>) (Unsubscribe l0)"
  from 3 have run: "run_actions ?s acts = (r, st')" by simp
  have g1: "grows st ?s"
    by (rule growsI [where evs = "[Unsubscribed l0]"]) (simp add: call_unsubscribe_def)
  have e1: "new_events st ?s = [Unsubscribed l0]"
    by (rule new_events_eq) (simp add: call_unsubscribe_def)
  have ls: "listeners ?s = set_delete (listeners st) l0"
    by (simp add: call_unsubscribe_def)
  have d: "distinct (live (listeners ?s))"
    using "3.prems"(2) shrinks_distinct [OF shrinks_set_delete] ls by metis
  from new_events_trans [OF g1 run_actions_grows [OF run]] e1 "3.prems"(3)
  consider "l = l0" | "Unsubscribed l \<in> set (new_events ?s st')" by auto
  then show ?case
  proof cases
    case 1
    have "Some l0 \<notin> set (listeners ?s)"
      using set_delete_absent [OF "3.prems"(2)] ls by simp
    with shrinks_member [OF run_actions_shrinks [OF run]] 1 show ?thesis by blast
  next
    case 2
    from "3.IH" [OF run d 2] show ?thesis .
  qed
qed (auto simp: new_events_refl)

lemma frame_refl: "frame st st"
  by (simp add: frame_def shrinks_refl grows_refl)

lemma frame_trans: "frame st st1 \<Longrightarrow> frame st1 st2 \<Longrightarrow> frame st st2"
  unfolding frame_def using shrinks_trans grows_trans by (auto; blast)

lemma run_actions_is_frame: "run_actions st acts = (r, st') \<Longrightarrow> frame st st'"
  using run_actions_frame [of st acts r st'] run_actions_shrinks [of st acts r st']
    run_actions_grows [of st acts r st']
  by (simp add: frame_def)

lemma frame_log: "frame st (st\<lparr>trace := trace st @ evs\<rparr>)"
  by (simp add: frame_def shrinks_refl growsI)

lemma frame_memo:
  "n < length (closures st) \<Longrightarrow>
   frame st (st\<lparr>closures := (closures st)[n := (closures st ! n)\<lparr>previousValue := v\<rparr>],
              trace := trace st @ evs\<rparr>)"
  by (auto simp: frame_def shrinks_refl growsI nth_list_update)

lemma checkForChange_frame: "checkForChange st n = (r, st') \<Longrightarrow> frame st st'"
  unfolding checkForChange_def call_user_def Let_def
  by (auto split: if_splits outcome.splits simp: frame_refl
      dest!: run_actions_is_frame intro: frame_trans [OF frame_memo])

lemma call_listener_frame: "call_listener st x = (r, st') \<Longrightarrow> frame st st'"
  by (cases x) (auto simp: call_user_def dest: run_actions_is_frame checkForChange_frame)

lemma new_events_log: "new_events st (st\<lparr>trace := trace st @ evs\<rparr>) = evs"
  by (simp add: new_events_def)

lemma checkForChange_notified:
  "checkForChange st n = (r, st') \<Longrightarrow> notified (new_events st st') = []"
proof -
  assume run: "checkForChange st n = (r, st')"
  show ?thesis
  proof (cases "n < length (closures st)")
    case False
    with run show ?thesis by (simp add: checkForChange_def new_events_refl)
  next
    case lt: True
    let ?c = "closures st ! n"
    show ?thesis
    proof (cases "selector ?c (heap st) (data st)")
      case (Thrown e)
      with run lt show ?thesis by (simp add: checkForChange_def new_events_refl)
    next
      case (Returned cur)
      show ?thesis
      proof (cases "object_is (previousValue ?c) cur")
        case True
        with run lt Returned show ?thesis by (simp add: checkForChange_def new_events_refl)
      next
        case False
        let ?s = "st\<lparr>closures := (closures st)[n := ?c\<lparr>previousValue := cur\<rparr>],
                     trace := trace st @ [Fired n (consumer ?c)]\<rparr>"
        from run lt Returned False
        have ra: "run_actions ?s (body ?s (consumer ?c)) = (r, st')"
          by (simp add: checkForChange_def call_user_def Let_def)
        have g: "grows st ?s" by (rule growsI [where evs = "[Fired n (consumer ?c)]"]) simp
        have e: "new_events st ?s = [Fired n (consumer ?c)]" by (rule new_events_eq) simp
        from new_events_trans [OF g run_actions_grows [OF ra]] e run_actions_events [OF ra]
        show ?thesis by simp
      qed
    qed
  qed
qed

lemma call_listener_notified:
  "call_listener st x = (r, st') \<Longrightarrow> notified (new_events st st') = []"
  by (cases x) (auto simp: call_user_def dest: run_actions_events checkForChange_notified)

lemma checkForChange_cases [consumes 1, case_names absent threw same changed]:
  assumes run: "checkForChange st n = (r, st')"
    and absent: "length (closures st) \<le> n \<Longrightarrow> r = Returned () \<Longrightarrow> st' = st \<Longrightarrow> Q"
    and threw: "\<And>e. n < length (closures st) \<Longrightarrow>
        selector (closures st ! n) (heap st) (data st) = Thrown e \<Longrightarrow>
        r = Thrown e \<Longrightarrow> st' = st \<Longrightarrow> Q"
    and same: "\<And>cur. n < length (closures st) \<Longrightarrow>
        selector (closures st ! n) (heap st) (data st) = Returned cur \<Longrightarrow>
        object_is (previousValue (closures st ! n)) cur \<Longrightarrow>
        r = Returned () \<Longrightarrow> st' = st \<Longrightarrow> Q"
    and changed: "\<And>cur s. n < length (closures st) \<Longrightarrow>
        selector (closures st ! n) (heap st) (data st) = Returned cur \<Longrightarrow>
        \<not> object_is (previousValue (closures st ! n)) cur \<Longrightarrow>
        s = st\<lparr>closures := (closures st)[n := (closures st ! n)\<lparr>previousValue := cur\<rparr>],
               trace := trace st @ [Fired n (consumer (closures st ! n))]\<rparr> \<Longrightarrow>
        run_actions s (body st (consumer (closures st ! n))) = (r, st') \<Longrightarrow> Q"
  shows Q
proof (cases "n < length (closures st)")
  case False
  with run have "r = Returned ()" "st' = st" by (simp_all add: checkForChange_def)
  with False show ?thesis by (intro absent) simp_all
next
  case lt: True
  show ?thesis
  proof (cases "selector (closures st ! n) (heap st) (data st)")
    case (Thrown e)
    with run lt have "r = Thrown e" "st' = st" by (simp_all add: checkForChange_def)
    with lt Thrown show ?thesis by (intro threw)
  next
    case (Returned cur)
    show ?thesis
    proof (cases "object_is (previousValue (closures st ! n)) cur")
      case True
      with run lt Returned have "r = Returned ()" "st' = st"
        by (simp_all add: checkForChange_def)
      with lt Returned True show ?thesis by (intro same)
    next
      case False
      with run lt Returned
      have "run_actions
             (st\<lparr>closures := (closures st)[n := (closures st ! n)\<lparr>previousValue := cur\<rparr>],
                 trace := trace st @ [Fired n (consumer (closures st ! n))]\<rparr>)
             (body st (consumer (closures st ! n))) = (r, st')"
        by (simp add: checkForChange_def call_user_def Let_def)
      with lt Returned False show ?thesis by (intro changed [OF _ _ _ refl])
    qed
  qed
qed







lemma checkForChange_unsubscribed:
  assumes run: "checkForChange st n = (r, st')" and d: "distinct (live (listeners st))"
    and ev: "Unsubscribed l \<in> set (new_events st st')"
  shows "Some l \<notin> set (listeners st')"
  using run
proof (cases rule: checkForChange_cases)
  case (changed cur s)
  have g: "grows st s" using changed(4) by (intro growsI [where evs = "[Fired n (consumer (closures st ! n))]"]) simp
  have e: "new_events st s = [Fired n (consumer (closures st ! n))]"
    using changed(4) by (intro new_events_eq) simp
  from new_events_trans [OF g run_actions_grows [OF changed(5)]] e ev
  have "Unsubscribed l \<in> set (new_events s st')" by simp
  moreover have "distinct (live (listeners s))" using d changed(4) by simp
  ultimately show ?thesis using run_actions_unsubscribed [OF changed(5)] by blast
qed (use ev in \<open>auto simp: new_events_refl\<close>)

lemma call_listener_unsubscribed:
  "call_listener st x = (r, st') \<Longrightarrow> distinct (live (listeners st)) \<Longrightarrow>
   Unsubscribed l \<in> set (new_events st st') \<Longrightarrow> Some l \<notin> set (listeners st')"
  by (cases x) (auto simp: call_user_def dest: run_actions_unsubscribed checkForChange_unsubscribed)

lemma frame_grows: "frame st st' \<Longrightarrow> grows st st'"
  by (simp add: frame_def)

lemma frame_shrinks: "frame st st' \<Longrightarrow> shrinks (listeners st) (listeners st')"
  by (simp add: frame_def)

lemma call_step_frame:
  "call_listener (st\<lparr>trace := trace st @ [Notified x]\<rparr>) x = (r, st1) \<Longrightarrow> frame st st1"
  using frame_trans [OF frame_log call_listener_frame] by blast

lemma call_step_events:
  assumes call: "call_listener (st\<lparr>trace := trace st @ [Notified x]\<rparr>) x = (r, st1)"
  shows "new_events st st1 =
           Notified x # new_events (st\<lparr>trace := trace st @ [Notified x]\<rparr>) st1"
  using new_events_trans [OF frame_grows [OF frame_log] frame_grows [OF call_listener_frame [OF call]]]
  by (simp add: new_events_log)

lemma call_step_notified:
  assumes call: "call_listener (st\<lparr>trace := trace st @ [Notified x]\<rparr>) x = (r, st1)"
  shows "notified (new_events st st1) = [x]"
  using call_step_events [OF call] call_listener_notified [OF call] by simp

lemma forEach_frame: "forEach st i = (r, st') \<Longrightarrow> frame st st'"
proof (induction rule: forEach_induct_rule)
  case (finished st i)
  show ?case by (rule frame_refl)
next
  case (skip st i r st')
  then show ?case by simp
next
  case (throw st i x e st')
  then show ?case by (simp add: call_step_frame)
next
  case (step st i x st1 r st')
  from frame_trans [OF call_step_frame [OF step(3)] step(5)] show ?case .
qed

lemma forEach_notified_absent:
  "forEach st i = (r, st') \<Longrightarrow> Some l \<notin> set (listeners st) \<Longrightarrow>
     l \<notin> set (notified (new_events st st'))"
proof (induction rule: forEach_induct_rule)
  case (finished st i)
  show ?case by (simp add: new_events_refl)
next
  case (skip st i r st')
  then show ?case by simp
next
  case (throw st i x e st')
  from throw(1,2) have "Some x \<in> set (listeners st)" by (metis nth_mem)
  with throw(4) call_step_notified [OF throw(3)] show ?case by auto
next
  case (step st i x st1 r st')
  from step(1,2) have "Some x \<in> set (listeners st)" by (metis nth_mem)
  with step(6) have ne: "l \<noteq> x" by auto
  have f1: "frame st st1" by (rule call_step_frame [OF step(3)])
  from shrinks_member [OF frame_shrinks [OF f1]] step(6)
  have "Some l \<notin> set (listeners st1)" by blast
  with step(5) have "l \<notin> set (notified (new_events st1 st'))" by simp
  moreover have "new_events st st' = new_events st st1 @ new_events st1 st'"
    by (rule new_events_trans [OF frame_grows [OF f1] frame_grows [OF forEach_frame [OF step(4)]]])
  ultimately show ?case
    using call_step_notified [OF step(3)] ne by (simp add: notified_append)
qed








lemma quiet_append:
  "quiet_after_unsubscribe (a @ b) \<longleftrightarrow>
     quiet_after_unsubscribe a \<and> quiet_after_unsubscribe b \<and>
     (\<forall>l. Unsubscribed l \<in> set a \<longrightarrow> l \<notin> set (notified b))"
  by (induction a rule: quiet_after_unsubscribe.induct) (auto simp: notified_append)

lemma quiet_no_notified: "notified evs = [] \<Longrightarrow> quiet_after_unsubscribe evs"
proof (induction evs rule: quiet_after_unsubscribe.induct)
  case (2 l evs)
  then show ?case by (cases "notified evs") auto
qed auto

lemma forEach_unsubscribed:
  "forEach st i = (r, st') \<Longrightarrow> distinct (live (listeners st)) \<Longrightarrow>
   Unsubscribed l \<in> set (new_events st st') \<Longrightarrow> Some l \<notin> set (listeners st')"
proof (induction rule: forEach_induct_rule)
  case (finished st i)
  then show ?case by (simp add: new_events_refl)
next
  case (skip st i r st')
  then show ?case by simp
next
  case (throw st i x e st')
  let ?s = "st\<lparr>trace := trace st @ [Notified x]\<rparr>"
  from throw(5) call_step_events [OF throw(3)]
  have "Unsubscribed l \<in> set (new_events ?s st')" by simp
  with call_listener_unsubscribed [OF throw(3)] throw(4) show ?case by simp
next
  case (step st i x st1 r st')
  let ?s = "st\<lparr>trace := trace st @ [Notified x]\<rparr>"
  have f1: "frame st st1" by (rule call_step_frame [OF step(3)])
  have f2: "frame st1 st'" by (rule forEach_frame [OF step(4)])
  have d1: "distinct (live (listeners st1))"
    by (rule shrinks_distinct [OF frame_shrinks [OF f1] step(6)])
  have "new_events st st' = new_events st st1 @ new_events st1 st'"
    by (rule new_events_trans [OF frame_grows [OF f1] frame_grows [OF f2]])
  with step(7) call_step_events [OF step(3)]
  consider "Unsubscribed l \<in> set (new_events ?s st1)" | "Unsubscribed l \<in> set (new_events st1 st')"
    by auto
  then show ?case
  proof cases
    case 1
    with call_listener_unsubscribed [OF step(3)] step(6) have "Some l \<notin> set (listeners st1)"
      by simp
    with shrinks_member [OF frame_shrinks [OF f2]] show ?thesis by blast
  next
    case 2
    from step(5) [OF d1 2] show ?thesis .
  qed
qed

lemma forEach_quiet:
  "forEach st i = (r, st') \<Longrightarrow> distinct (live (listeners st)) \<Longrightarrow>
     quiet_after_unsubscribe (new_events st st')"
proof (induction rule: forEach_induct_rule)
  case (finished st i)
  then show ?case by (simp add: new_events_refl)
next
  case (skip st i r st')
  then show ?case by simp
next
  case (throw st i x e st')
  from call_step_events [OF throw(3)] quiet_no_notified [OF call_listener_notified [OF throw(3)]]
  show ?case by simp
next
  case (step st i x st1 r st')
  let ?s = "st\<lparr>trace := trace st @ [Notified x]\<rparr>"
  have f1: "frame st st1" by (rule call_step_frame [OF step(3)])
  have f2: "frame st1 st'" by (rule forEach_frame [OF step(4)])
  have d1: "distinct (live (listeners st1))"
    by (rule shrinks_distinct [OF frame_shrinks [OF f1] step(6)])
  have ev: "new_events st st' = new_events st st1 @ new_events st1 st'"
    by (rule new_events_trans [OF frame_grows [OF f1] frame_grows [OF f2]])
  have q1: "quiet_after_unsubscribe (new_events st st1)"
    using call_step_events [OF step(3)] quiet_no_notified [OF call_listener_notified [OF step(3)]]
    by simp
  have cross: "l \<notin> set (notified (new_events st1 st'))" if "Unsubscribed l \<in> set (new_events st st1)" for l
  proof -
    from that call_step_events [OF step(3)] have "Unsubscribed l \<in> set (new_events ?s st1)" by simp
    with call_listener_unsubscribed [OF step(3)] step(6) have "Some l \<notin> set (listeners st1)"
      by simp
    from forEach_notified_absent [OF step(4) this] show ?thesis .
  qed
  from q1 step(5) [OF d1] cross ev show ?case by (simp add: quiet_append)
qed

lemma run_actions_thrown: "run_actions st acts = (Thrown e, st') \<Longrightarrow> Raise e \<in> set acts"
  by (induction st acts rule: run_actions.induct) auto

lemma call_listener_thrown: "call_listener st x = (Thrown e, st') \<Longrightarrow> raises st x e"
proof (cases x)
  case (User f)
  assume "call_listener st x = (Thrown e, st')"
  with User show ?thesis by (auto simp: call_user_def dest: run_actions_thrown)
next
  case (CheckForChange n)
  assume "call_listener st x = (Thrown e, st')"
  with CheckForChange have "checkForChange st n = (Thrown e, st')" by simp
  then have "raises st (CheckForChange n) e"
    by (cases rule: checkForChange_cases) (auto dest: run_actions_thrown)
  with CheckForChange show ?thesis by simp
qed

lemma frame_raises: "frame st st' \<Longrightarrow> raises st' x e = raises st x e"
  by (cases x) (auto simp: frame_def)

lemma forEach_thrown:
  "forEach st i = (r, st') \<Longrightarrow> r = Thrown e \<Longrightarrow>
     \<exists>x pre post. new_events st st' = pre @ Notified x # post \<and> notified post = [] \<and>
       Some x \<in> set (listeners st) \<and> raises st x e"
proof (induction rule: forEach_induct_rule)
  case (finished st i)
  then show ?case by simp
next
  case (skip st i r st')
  then show ?case by simp
next
  case (throw st i x e' st')
  let ?s = "st\<lparr>trace := trace st @ [Notified x]\<rparr>"
  from call_listener_thrown [OF throw(3)] throw(4) have "raises ?s x e" by simp
  then have "raises st x e" using frame_raises [OF frame_log, of st "[Notified x]" x e] by simp
  moreover from throw(1,2) have "Some x \<in> set (listeners st)" by (metis nth_mem)
  moreover have "new_events st st' = [] @ Notified x # new_events ?s st'"
    using call_step_events [OF throw(3)] by simp
  ultimately show ?case using call_listener_notified [OF throw(3)] by blast
next
  case (step st i x st1 r st')
  have f1: "frame st st1" by (rule call_step_frame [OF step(3)])
  have f2: "frame st1 st'" by (rule forEach_frame [OF step(4)])
  have ev: "new_events st st' = new_events st st1 @ new_events st1 st'"
    by (rule new_events_trans [OF frame_grows [OF f1] frame_grows [OF f2]])
  from step(5) [OF step(6)] obtain y pre post where
    y: "new_events st1 st' = pre @ Notified y # post" "notified post = []"
       "Some y \<in> set (listeners st1)" "raises st1 y e"
    by blast
  from y(1) ev have "new_events st st' = (new_events st st1 @ pre) @ Notified y # post" by simp
  moreover from y(3) shrinks_member [OF frame_shrinks [OF f1]] have "Some y \<in> set (listeners st)"
    by blast
  moreover from y(4) frame_raises [OF f1] have "raises st y e" by simp
  ultimately show ?case using y(2) by blast
qed

lemma forEach_returns:
  assumes run: "forEach st i = (r, st')"
    and nobody: "\<And>x e. Some x \<in> set (listeners st) \<Longrightarrow> \<not> raises st x e"
  shows "r = Returned ()"
proof (cases r)
  case (Returned u)
  then show ?thesis by simp
next
  case (Thrown e)
  from forEach_thrown [OF run Thrown] nobody show ?thesis by blast
qed

section \<open>The snapshot after an update\<close>

lemma merge_data_simps:
  "heap (merge_data st p) = heap st @ [snapshot st ++ p]"
  "data (merge_data st p) = length (heap st)"
  "listeners (merge_data st p) = listeners st"
  "closures (merge_data st p) = closures st"
  "body (merge_data st p) = body st"
  "trace (merge_data st p) = trace st"
  by (simp_all add: merge_data_def alloc_def snapshot_def getSnapshot_def)

lemma update_frame: "update st p = (r, st') \<Longrightarrow> frame (merge_data st p) st'"
  by (simp add: update_def emitChange_def forEach_frame)

lemma new_events_merge_data: "new_events (merge_data st p) st' = new_events st st'"
  by (simp add: new_events_def merge_data_simps)

lemma snapshot_merge_data: "snapshot (merge_data st p) = snapshot st ++ p"
  by (simp add: snapshot_def getSnapshot_def merge_data_simps obj_at_def)

lemma frame_snapshot: "frame st st' \<Longrightarrow> snapshot st' = snapshot st"
  by (simp add: frame_def snapshot_def getSnapshot_def)


text \<open>Unfolding the methods on a given store.\<close>

lemmas run_simps = new_Store_def alloc_def obj_at_def subscribe_def set_add_def update_def
  merge_data_def emitChange_def forEach.simps checkForChange_def call_user_def
  call_unsubscribe_def subscribeWithSelector_def new_events_def Let_def

lemma snapshot_counterStore:
  "snapshot counterStore = [''count'' \<mapsto> Num 0, ''step'' \<mapsto> Num 0x3FF0000000000000]"
  by (simp add: counterStore_def new_Store_def alloc_def snapshot_def getSnapshot_def obj_at_def)






text \<open>Several updates.\<close>

lemma update_shrinks: "update st p = (r, st') \<Longrightarrow> shrinks (listeners st) (listeners st')"
  using frame_shrinks [OF update_frame, of st p r st'] by (simp add: merge_data_simps)

lemma update_grows: "update st p = (r, st') \<Longrightarrow> grows st st'"
  using frame_grows [OF update_frame, of st p r st']
  by (simp add: grows_def new_events_merge_data merge_data_simps)

lemma update_distinct:
  "update st p = (r, st') \<Longrightarrow> distinct (live (listeners st)) \<Longrightarrow> distinct (live (listeners st'))"
  using shrinks_distinct [OF update_shrinks] by blast

lemma update_notified_absent:
  "update st p = (r, st') \<Longrightarrow> Some l \<notin> set (listeners st) \<Longrightarrow>
     l \<notin> set (notified (new_events st st'))"
  using forEach_notified_absent [of "merge_data st p" 0 r st' l]
  by (simp add: update_def emitChange_def new_events_merge_data merge_data_simps)

lemma update_unsubscribed:
  "update st p = (r, st') \<Longrightarrow> distinct (live (listeners st)) \<Longrightarrow>
     Unsubscribed l \<in> set (new_events st st') \<Longrightarrow> Some l \<notin> set (listeners st')"
  using forEach_unsubscribed [of "merge_data st p" 0 r st' l]
  by (simp add: update_def emitChange_def new_events_merge_data merge_data_simps)

lemma update_quiet:
  "update st p = (r, st') \<Longrightarrow> distinct (live (listeners st)) \<Longrightarrow>
     quiet_after_unsubscribe (new_events st st')"
  using forEach_quiet [of "merge_data st p" 0 r st']
  by (simp add: update_def emitChange_def new_events_merge_data merge_data_simps)

lemma update_pair: "update st p = (fst (update st p), snd (update st p))"
  by simp

lemma updates_shrinks: "shrinks (listeners st) (listeners (updates st ps))"
proof (induction ps arbitrary: st)
  case Nil
  show ?case by (simp add: shrinks_refl)
next
  case (Cons p ps)
  from shrinks_trans [OF update_shrinks [OF update_pair] Cons [of "snd (update st p)"]]
  show ?case by simp
qed

lemma updates_grows: "grows st (updates st ps)"
proof (induction ps arbitrary: st)
  case Nil
  show ?case by (simp add: grows_refl)
next
  case (Cons p ps)
  from grows_trans [OF update_grows [OF update_pair] Cons [of "snd (update st p)"]]
  show ?case by simp
qed

lemma updates_distinct:
  "distinct (live (listeners st)) \<Longrightarrow> distinct (live (listeners (updates st ps)))"
  using shrinks_distinct [OF updates_shrinks] by blast

lemma updates_events:
  "new_events st (updates (snd (update st p)) ps) =
     new_events st (snd (update st p)) @ new_events (snd (update st p)) (updates (snd (update st p)) ps)"
  by (rule new_events_trans [OF update_grows [OF update_pair] updates_grows])

lemma updates_notified_absent:
  "Some l \<notin> set (listeners st) \<Longrightarrow> l \<notin> set (notified (new_events st (updates st ps)))"
proof (induction ps arbitrary: st)
  case Nil
  show ?case by (simp add: new_events_refl)
next
  case (Cons p ps)
  let ?s = "snd (update st p)"
  from Cons.prems shrinks_member [OF update_shrinks [OF update_pair]]
  have "Some l \<notin> set (listeners ?s)" by blast
  from Cons.IH [OF this] update_notified_absent [OF update_pair Cons.prems, of p]
  show ?case by (simp add: updates_events [of st p ps] notified_append)
qed

lemma updates_quiet:
  "distinct (live (listeners st)) \<Longrightarrow> quiet_after_unsubscribe (new_events st (updates st ps))"
proof (induction ps arbitrary: st)
  case Nil
  show ?case by (simp add: new_events_refl)
next
  case (Cons p ps)
  let ?s = "snd (update st p)"
  have d: "distinct (live (listeners ?s))"
    by (rule update_distinct [OF update_pair Cons.prems])
  have cross: "l \<notin> set (notified (new_events ?s (updates ?s ps)))"
    if "Unsubscribed l \<in> set (new_events st ?s)" for l
    using updates_notified_absent [OF update_unsubscribed [OF update_pair Cons.prems that]] .
  from update_quiet [OF update_pair Cons.prems, of p] Cons.IH [OF d] cross
  show ?case by (simp add: updates_events [of st p ps] quiet_append)
qed

lemma set_delete_twice: "distinct (live es) \<Longrightarrow> set_delete (set_delete es x) x = set_delete es x"
  by (rule set_delete_noop [OF set_delete_absent])

lemma call_unsubscribe_absent:
  "distinct (live (listeners st)) \<Longrightarrow> Some l \<notin> set (listeners (call_unsubscribe st (Unsubscribe l)))"
  by (simp add: call_unsubscribe_def set_delete_absent)

lemma run_actions_calls: "fst (run_actions st (map Call us)) = Returned ()"
proof (induction us arbitrary: st)
  case Nil
  show ?case by simp
next
  case (Cons u us)
  then show ?case by (cases u) simp
qed

text \<open>The listener set has no duplicates.\<close>

lemma set_add_distinct: "distinct (live es) \<Longrightarrow> distinct (live (set_add es x))"
  by (simp add: set_add_def live_append in_live_iff)






lemma subscribeWithSelector_distinct:
  "distinct (live (listeners st)) \<Longrightarrow>
     distinct (live (listeners (snd (subscribeWithSelector st sel f))))"
  by (cases "sel (heap st) (data st)")
    (simp_all add: subscribeWithSelector_def subscribe_def set_add_distinct Let_def)



lemma update_returns:
  assumes "\<And>x e. Some x \<in> set (listeners st) \<Longrightarrow> \<not> raises (merge_data st p) x e"
  shows "fst (update st p) = Returned ()"
  using forEach_returns [of "merge_data st p" 0 "fst (update st p)" "snd (update st p)"] assms
  by (simp add: update_def emitChange_def merge_data_simps)







text \<open>\<^verbatim>\<open>Object.is\<close> is the same-value equality of the specification, and an equivalence.\<close>

lemma is_zero_not_nan: "is_zero w \<Longrightarrow> \<not> is_nan w"
proof
  assume z: "is_zero w" and n: "is_nan w"
  have "take_bit 11 (drop_bit 52 w) = drop_bit 52 (take_bit 63 w)"
    by (simp add: drop_bit_take_bit)
  with z have "take_bit 11 (drop_bit 52 w) = 0" by (simp add: is_zero_def)
  with n show False by (simp add: is_nan_def)
qed

lemma object_is_spec: "object_is v w = spec_same_value v w"
  by (cases v; cases w) (auto dest: is_zero_not_nan)



lemma checkForChange_spec: "checkForChange st n = spec_on_broadcast st n"
  by (simp add: checkForChange_def spec_on_broadcast_def object_is_spec Let_def
      split: outcome.splits)

lemma subscribeWithSelector_spec:
  "subscribeWithSelector st sel f = spec_subscribeWithSelector st sel f"
  by (simp add: subscribeWithSelector_def spec_subscribeWithSelector_def Let_def
      split: outcome.splits prod.splits)





















text \<open>A closure that is not in the listener set calls nothing.\<close>

lemma call_listener_fired_other:
  assumes call: "call_listener st x = (r, st')" and other: "x \<noteq> CheckForChange n"
  shows "fired n (new_events st st') = 0"
proof (cases x)
  case (User f)
  with call show ?thesis by (auto simp: call_user_def dest: run_actions_events)
next
  case (CheckForChange m)
  with call have run: "checkForChange st m = (r, st')" by simp
  from CheckForChange other have ne: "m \<noteq> n" by simp
  from run show ?thesis
  proof (cases rule: checkForChange_cases)
    case (changed cur s)
    have g: "grows st s"
      using changed(4) by (intro growsI [where evs = "[Fired m (consumer (closures st ! m))]"]) simp
    have e: "new_events st s = [Fired m (consumer (closures st ! m))]"
      using changed(4) by (intro new_events_eq) simp
    from new_events_trans [OF g run_actions_grows [OF changed(5)]] e
      run_actions_events [OF changed(5), of n] ne
    show ?thesis by simp
  qed (simp_all add: new_events_refl)
qed

lemma forEach_fired_absent:
  "forEach st i = (r, st') \<Longrightarrow> Some (CheckForChange n) \<notin> set (listeners st) \<Longrightarrow>
     fired n (new_events st st') = 0"
proof (induction rule: forEach_induct_rule)
  case (finished st i)
  show ?case by (simp add: new_events_refl)
next
  case (skip st i r st')
  then show ?case by simp
next
  case (throw st i x e st')
  from throw(1,2) have "Some x \<in> set (listeners st)" by (metis nth_mem)
  with throw(4) have "x \<noteq> CheckForChange n" by auto
  from call_listener_fired_other [OF throw(3) this] call_step_events [OF throw(3)]
  show ?case by simp
next
  case (step st i x st1 r st')
  from step(1,2) have "Some x \<in> set (listeners st)" by (metis nth_mem)
  with step(6) have ne: "x \<noteq> CheckForChange n" by auto
  have f1: "frame st st1" by (rule call_step_frame [OF step(3)])
  from shrinks_member [OF frame_shrinks [OF f1]] step(6)
  have "Some (CheckForChange n) \<notin> set (listeners st1)" by blast
  with step(5) have "fired n (new_events st1 st') = 0" by simp
  moreover have "new_events st st' = new_events st st1 @ new_events st1 st'"
    by (rule new_events_trans [OF frame_grows [OF f1] frame_grows [OF forEach_frame [OF step(4)]]])
  ultimately show ?case
    using call_listener_fired_other [OF step(3) ne] call_step_events [OF step(3)]
    by (simp add: fired_append)
qed

lemma update_fired_absent:
  "update st p = (r, st') \<Longrightarrow> Some (CheckForChange n) \<notin> set (listeners st) \<Longrightarrow>
     fired n (new_events st st') = 0"
  using forEach_fired_absent [of "merge_data st p" 0 r st' n]
  by (simp add: update_def emitChange_def new_events_merge_data merge_data_simps)

lemma updates_fired_absent:
  "Some (CheckForChange n) \<notin> set (listeners st) \<Longrightarrow> fired n (new_events st (updates st ps)) = 0"
proof (induction ps arbitrary: st)
  case Nil
  show ?case by (simp add: new_events_refl)
next
  case (Cons p ps)
  let ?s = "snd (update st p)"
  from Cons.prems shrinks_member [OF update_shrinks [OF update_pair]]
  have "Some (CheckForChange n) \<notin> set (listeners ?s)" by blast
  from Cons.IH [OF this] update_fired_absent [OF update_pair Cons.prems, of p]
  show ?case by (simp add: updates_events [of st p ps] fired_append)
qed

lemma update_returns_without_throw:
  assumes code: "\<forall>f e. Raise e \<notin> set (body st f)"
    and sels: "\<forall>c\<in>set (closures st). \<forall>h a e. selector c h a \<noteq> Thrown e"
  shows "fst (update st p) = Returned ()"
proof (rule update_returns)
  fix x e
  assume "Some x \<in> set (listeners st)"
  show "\<not> raises (merge_data st p) x e"
  proof (cases x)
    case (User f)
    with code show ?thesis by (simp add: merge_data_simps)
  next
    case (CheckForChange n)
    show ?thesis
    proof
      assume "raises (merge_data st p) x e"
      with CheckForChange have n: "n < length (closures st)"
        and or: "selector (closures st ! n) (heap (merge_data st p)) (data (merge_data st p)) = Thrown e \<or>
            Raise e \<in> set (body st (consumer (closures st ! n)))"
        by (simp_all add: merge_data_simps)
      from n have "closures st ! n \<in> set (closures st)" by simp
      with sels or code show False by blast
    qed
  qed
qed

section \<open>Claims\<close>

text \<open>
  C1. Shallow merge: after \<^verbatim>\<open>update(P)\<close> the snapshot is the old snapshot overlaid with
  \<open>P\<close>: a key of \<open>P\<close> has the value \<open>P\<close> gives it, and every other key has the value
  it had before the call. This holds whether or not a listener throws during the
  notification.
\<close>

theorem update_shallow_merge:
  "snapshot (snd (update st p)) = snapshot st ++ p \<and>
   (\<forall>k v. p k = Some v \<longrightarrow> snapshot (snd (update st p)) k = Some v) \<and>
   (\<forall>k. p k = None \<longrightarrow> snapshot (snd (update st p)) k = snapshot st k)"
proof -
  obtain r st' where run: "update st p = (r, st')"
    by (cases "update st p")
  have merged: "snapshot (merge_data st p) = snapshot st ++ p"
    by (rule snapshot_merge_data)
  have pass: "snapshot st' = snapshot (merge_data st p)"
    by (rule frame_snapshot [OF update_frame [OF run]])
  from run merged pass have "snapshot (snd (update st p)) = snapshot st ++ p"
    by simp
  then show ?thesis
    by (simp add: map_add_def)
qed

theorem update_shallow_merge_witness:
  "snapshot (snd (update counterStore [''count'' \<mapsto> Num 0x4008000000000000])) ''count''
     = Some (Num 0x4008000000000000) \<and>
   snapshot (snd (update counterStore [''count'' \<mapsto> Num 0x4008000000000000])) ''step''
     = Some (Num 0x3FF0000000000000)"
proof -
  let ?p = "[''count'' \<mapsto> Num 0x4008000000000000]"
  have in_patch: "?p ''count'' = Some (Num 0x4008000000000000)" by simp
  have not_in_patch: "?p ''step'' = None" by simp
  from update_shallow_merge [of counterStore ?p] in_patch not_in_patch
  have "snapshot (snd (update counterStore ?p)) ''count'' = Some (Num 0x4008000000000000)"
    and "snapshot (snd (update counterStore ?p)) ''step'' = snapshot counterStore ''step''"
    by blast+
  then show ?thesis by (simp add: snapshot_counterStore)
qed











text \<open>
  C5. Let the entries of the listener set be distinct, as they are in a JavaScript
  \<^verbatim>\<open>Set\<close>, and let \<open>unsub\<close> be the function that \<^verbatim>\<open>subscribe(l)\<close> returned. Calling
  \<open>unsub\<close> twice leaves the store as calling it once does. After a call of \<open>unsub\<close> no
  later \<^verbatim>\<open>update\<close> calls \<open>l\<close>. A function of the caller's that only calls unsubscribe
  functions returns normally, also during a notification pass; an update whose
  listeners and selectors have no \<^verbatim>\<open>throw\<close> returns normally, whatever the listeners
  unsubscribe during the pass; and in the passes of any sequence of updates a listener
  is never called after its unsubscribe function has been called. (No listener subscribes again in between: listeners that call
  \<^verbatim>\<open>subscribe\<close> are outside the model.)
\<close>

theorem unsubscribe_semantics:
  fixes st0 st :: store and l :: listener
  defines "unsub \<equiv> fst (subscribe st0 l)"
  assumes d: "distinct (live (listeners st))"
  shows "call_unsubscribe (call_unsubscribe st unsub) unsub = call_unsubscribe st unsub \<and>
         l \<notin> set (notified (new_events (call_unsubscribe st unsub)
                               (updates (call_unsubscribe st unsub) ps))) \<and>
         fst (run_actions st (map Call us)) = Returned () \<and>
         ((\<forall>f e. Raise e \<notin> set (body st f)) \<and>
          (\<forall>c\<in>set (closures st). \<forall>h a e. selector c h a \<noteq> Thrown e) \<longrightarrow>
            fst (update st p) = Returned ()) \<and>
         quiet_after_unsubscribe (new_events st (updates st ps))"
proof -
  have u: "unsub = Unsubscribe l" by (simp add: unsub_def subscribe_def)
  have "call_unsubscribe (call_unsubscribe st unsub) unsub = call_unsubscribe st unsub"
    using set_delete_twice [OF d, of l] by (simp add: u call_unsubscribe_def)
  moreover have "l \<notin> set (notified (new_events (call_unsubscribe st unsub)
                               (updates (call_unsubscribe st unsub) ps)))"
    using updates_notified_absent [OF call_unsubscribe_absent [OF d, of l]] by (simp add: u)
  ultimately show ?thesis
    using run_actions_calls updates_quiet [OF d] update_returns_without_throw [of st p]
    by simp
qed


theorem unsubscribe_semantics_witness:
  "distinct (live (listeners removing_store)) \<and>
   new_events removing_store (updates removing_store [Map.empty, Map.empty])
     = [Notified (User 0), Unsubscribed (User 1), Notified (User 0), Unsubscribed (User 1)] \<and>
   quiet_after_unsubscribe
     (new_events removing_store (updates removing_store [Map.empty, Map.empty])) \<and>
   User 1 \<notin> set (notified
     (new_events (call_unsubscribe removing_store (fst (subscribe removing_store (User 1))))
        (updates (call_unsubscribe removing_store (fst (subscribe removing_store (User 1))))
           [Map.empty, Map.empty]))) \<and>
   fst (update removing_store Map.empty) = Returned ()"
proof -
  have d: "distinct (live (listeners removing_store))"
    by (simp add: removing_store_def two_listeners_def run_simps)
  have tr: "new_events removing_store (updates removing_store [Map.empty, Map.empty])
     = [Notified (User 0), Unsubscribed (User 1), Notified (User 0), Unsubscribed (User 1)]"
    by (simp add: removing_store_def two_listeners_def run_simps)
  have calm: "(\<forall>f e. Raise e \<notin> set (body removing_store f)) \<and>
      (\<forall>c\<in>set (closures removing_store). \<forall>h a e. selector c h a \<noteq> Thrown e)"
    by (simp add: removing_store_def two_listeners_def run_simps)
  from unsubscribe_semantics [OF d, where ?st0.0 = removing_store and l = "User 1"
      and ps = "[Map.empty, Map.empty]" and us = "[]" and p = Map.empty] calm
  have "quiet_after_unsubscribe
          (new_events removing_store (updates removing_store [Map.empty, Map.empty]))"
    and "User 1 \<notin> set (notified
     (new_events (call_unsubscribe removing_store (fst (subscribe removing_store (User 1))))
        (updates (call_unsubscribe removing_store (fst (subscribe removing_store (User 1))))
           [Map.empty, Map.empty])))"
    and "fst (update removing_store Map.empty) = Returned ()"
    by blast+
  with d tr show ?thesis by simp
qed







text \<open>
  C9. \<^verbatim>\<open>subscribeWithSelector\<close> is \<^verbatim>\<open>subscribe\<close> applied to the change-detection
  wrapper of section 4.2: it equals the operation worded from the specification, and a
  call of its \<^verbatim>\<open>checkForChange\<close> is the specification's step on a broadcast. When the
  selector returns, it adds the one closure, registers it through \<^verbatim>\<open>subscribe\<close> (one
  \<^verbatim>\<open>Set.add\<close>), returns the unsubscribe function of that call, and leaves the heap,
  the snapshot, the caller's functions and the trace as they are. When the selector
  throws, nothing is registered. After a call of the returned unsubscribe function the
  closure is out of the listener set (whose entries are distinct), and no later update
  makes it call its listener.
\<close>

theorem subscribeWithSelector_derived:
  fixes st :: store and sel :: selector and f :: fid
  defines "n \<equiv> length (closures st)"
  defines "wrapped \<equiv>
    (\<lambda>v. st\<lparr>closures := closures st @ [\<lparr>selector = sel, previousValue = v, consumer = f\<rparr>]\<rparr>)"
  shows "subscribeWithSelector st sel f = spec_subscribeWithSelector st sel f \<and>
         call_listener s (CheckForChange m) = spec_on_broadcast s m \<and>
         (sel (heap st) (data st) = Returned v \<longrightarrow>
            subscribeWithSelector st sel f
              = (Returned (fst (subscribe (wrapped v) (CheckForChange n))),
                 snd (subscribe (wrapped v) (CheckForChange n))) \<and>
            fst (subscribeWithSelector st sel f) = Returned (Unsubscribe (CheckForChange n)) \<and>
            listeners (snd (subscribeWithSelector st sel f))
              = set_add (listeners st) (CheckForChange n) \<and>
            heap (snd (subscribeWithSelector st sel f)) = heap st \<and>
            data (snd (subscribeWithSelector st sel f)) = data st \<and>
            trace (snd (subscribeWithSelector st sel f)) = trace st \<and>
            body (snd (subscribeWithSelector st sel f)) = body st) \<and>
         (sel (heap st) (data st) = Thrown e \<longrightarrow>
            subscribeWithSelector st sel f = (Thrown e, st)) \<and>
         (distinct (live (listeners st)) \<and> sel (heap st) (data st) = Returned v \<longrightarrow>
            Some (CheckForChange n) \<notin> set (listeners
              (call_unsubscribe (snd (subscribeWithSelector st sel f))
                 (Unsubscribe (CheckForChange n)))) \<and>
            fired n (new_events
              (call_unsubscribe (snd (subscribeWithSelector st sel f))
                 (Unsubscribe (CheckForChange n)))
              (updates
                 (call_unsubscribe (snd (subscribeWithSelector st sel f))
                    (Unsubscribe (CheckForChange n))) ps)) = 0)"
proof -
  let ?gone = "call_unsubscribe (snd (subscribeWithSelector st sel f))
                 (Unsubscribe (CheckForChange n))"
  have absent: "Some (CheckForChange n) \<notin> set (listeners ?gone)"
    if "distinct (live (listeners st))"
    by (rule call_unsubscribe_absent [OF subscribeWithSelector_distinct [OF that]])
  from updates_fired_absent [of n ?gone ps] absent
  have "distinct (live (listeners st)) \<and> sel (heap st) (data st) = Returned v \<longrightarrow>
      Some (CheckForChange n) \<notin> set (listeners ?gone) \<and>
      fired n (new_events ?gone (updates ?gone ps)) = 0"
    by blast
  then show ?thesis
    using subscribeWithSelector_spec [of st sel f] checkForChange_spec [of s m]
    by (simp add: subscribeWithSelector_def subscribe_def n_def wrapped_def Let_def)
qed


theorem subscribeWithSelector_derived_witness:
  "subscribeWithSelector counterStore (select_field ''count'') 7
     = (Returned (Unsubscribe (CheckForChange 0)),
        snd (subscribe
          (counterStore\<lparr>closures :=
             [\<lparr>selector = select_field ''count'', previousValue = Num 0, consumer = 7\<rparr>]\<rparr>)
          (CheckForChange 0))) \<and>
   listeners (snd (subscribeWithSelector counterStore (select_field ''count'') 7))
     = [Some (CheckForChange 0)] \<and>
   subscribeWithSelector counterStore (\<lambda>h a. Thrown (Str ''no'')) 7
     = (Thrown (Str ''no''), counterStore) \<and>
   fired 0 (new_events
     (call_unsubscribe (snd (subscribeWithSelector counterStore (select_field ''count'') 7))
        (Unsubscribe (CheckForChange 0)))
     (updates
        (call_unsubscribe (snd (subscribeWithSelector counterStore (select_field ''count'') 7))
           (Unsubscribe (CheckForChange 0)))
        [[''count'' \<mapsto> Num 0x4008000000000000]])) = 0"
proof -
  have sel: "select_field ''count'' (heap counterStore) (data counterStore) = Returned (Num 0)"
    by (simp add: counterStore_def select_field_def get_field_def new_Store_def alloc_def
        obj_at_def)
  have empty: "closures counterStore = []" "listeners counterStore = []"
    by (simp_all add: counterStore_def new_Store_def alloc_def)
  from subscribeWithSelector_derived [where st = counterStore and sel = "select_field ''count''"
      and f = 7 and v = "Num 0"] sel
  have "subscribeWithSelector counterStore (select_field ''count'') 7
          = (Returned (fst (subscribe
               (counterStore\<lparr>closures := closures counterStore @
                  [\<lparr>selector = select_field ''count'', previousValue = Num 0, consumer = 7\<rparr>]\<rparr>)
               (CheckForChange (length (closures counterStore))))),
             snd (subscribe
               (counterStore\<lparr>closures := closures counterStore @
                  [\<lparr>selector = select_field ''count'', previousValue = Num 0, consumer = 7\<rparr>]\<rparr>)
               (CheckForChange (length (closures counterStore)))))"
    and "listeners (snd (subscribeWithSelector counterStore (select_field ''count'') 7))
          = set_add (listeners counterStore) (CheckForChange (length (closures counterStore)))"
    by blast+
  then have made: "subscribeWithSelector counterStore (select_field ''count'') 7
     = (Returned (Unsubscribe (CheckForChange 0)),
        snd (subscribe
          (counterStore\<lparr>closures :=
             [\<lparr>selector = select_field ''count'', previousValue = Num 0, consumer = 7\<rparr>]\<rparr>)
          (CheckForChange 0))) \<and>
   listeners (snd (subscribeWithSelector counterStore (select_field ''count'') 7))
     = [Some (CheckForChange 0)]"
    by (simp add: empty subscribe_def set_add_def)
  have thrown: "(\<lambda>h a. Thrown (Str ''no'')) (heap counterStore) (data counterStore)
      = Thrown (Str ''no'')"
    by simp
  note last = subscribeWithSelector_derived [where st = counterStore
      and sel = "\<lambda>h a. Thrown (Str ''no'')" and f = 7 and e = "Str ''no''",
      THEN conjunct2, THEN conjunct2, THEN conjunct2, THEN conjunct1]
  from last thrown
  have refused: "subscribeWithSelector counterStore (\<lambda>h a. Thrown (Str ''no'')) 7
      = (Thrown (Str ''no''), counterStore)"
    by simp
  have d: "distinct (live (listeners counterStore))" by (simp add: empty)
  note after = subscribeWithSelector_derived [where st = counterStore
      and sel = "select_field ''count''" and f = 7 and v = "Num 0"
      and ps = "[[''count'' \<mapsto> Num 0x4008000000000000]]",
      THEN conjunct2, THEN conjunct2, THEN conjunct2, THEN conjunct2]
  from after d sel
  have silent: "fired 0 (new_events
     (call_unsubscribe (snd (subscribeWithSelector counterStore (select_field ''count'') 7))
        (Unsubscribe (CheckForChange 0)))
     (updates
        (call_unsubscribe (snd (subscribeWithSelector counterStore (select_field ''count'') 7))
           (Unsubscribe (CheckForChange 0)))
        [[''count'' \<mapsto> Num 0x4008000000000000]])) = 0"
    by (simp add: empty)
  from made refused silent show ?thesis by blast
qed



end
